theory Spec2Isabelle
  imports Complex_Main
begin

section \<open>Configuration constants\<close>

text \<open>
  The constants of the CONFIG block of \<^verbatim>\<open>spotify_playlist_to_liked.py\<close>. The delays are
  Python float literals; they are never computed with before being chosen, so they are
  kept as the decimal numbers the literals denote.
\<close>

definition SAFE_THRESHOLD :: nat where
  "SAFE_THRESHOLD = 1000"

definition SLOW_THRESHOLD_DELAY :: real where
  "SLOW_THRESHOLD_DELAY = 1.2"

definition MIN_DELAY_BASE :: real where
  "MIN_DELAY_BASE = 0.35"

definition MAX_RETRIES :: nat where
  "MAX_RETRIES = 5"

definition SPEED_MODES :: "(string \<times> real) list" where
  "SPEED_MODES = [(''fast'', 0.35), (''balanced'', 0.6), (''accurate'', 1.5)]"

section \<open>Python values the program handles\<close>

text \<open>Exceptions derived from \<^verbatim>\<open>Exception\<close> that the program can meet.\<close>

datatype exc =
    TypeError
  | IndexError
  | KeyError
  | ValueError
  | AttributeError
  | SpotifyError int
  | ClientError string

subsection \<open>\<^verbatim>\<open>str.lower\<close> and \<^verbatim>\<open>int(str)\<close>\<close>

text \<open>\<^verbatim>\<open>str.lower\<close>, on the letters A to Z.\<close>

definition lower_char :: "char \<Rightarrow> char" where
  "lower_char c =
     (let n = (of_char c :: nat) in if 65 \<le> n \<and> n \<le> 90 then char_of (n + 32) else c)"

definition lower :: "string \<Rightarrow> string" where
  "lower s = map lower_char s"

definition is_space :: "char \<Rightarrow> bool" where
  "is_space c =
     (let n = (of_char c :: nat) in (9 \<le> n \<and> n \<le> 13) \<or> (28 \<le> n \<and> n \<le> 32))"

definition is_digit :: "char \<Rightarrow> bool" where
  "is_digit c = (let n = (of_char c :: nat) in 48 \<le> n \<and> n \<le> 57)"

definition digit_val :: "char \<Rightarrow> int" where
  "digit_val c = int (of_char c - (48::nat))"

definition strip :: "string \<Rightarrow> string" where
  "strip s = rev (dropWhile is_space (rev (dropWhile is_space s)))"

text \<open>
  The digits of a literal, left to right, with the value read so far. A single underscore
  may stand between two digits; \<open>prev\<close> tells whether the previous character was a digit.
\<close>

fun digits_value :: "bool \<Rightarrow> int \<Rightarrow> string \<Rightarrow> exc + int" where
  "digits_value prev acc [] = (if prev then Inr acc else Inl ValueError)"
| "digits_value prev acc (c # cs) =
     (if is_digit c then digits_value True (acc * 10 + digit_val c) cs
      else if c = CHR ''_'' \<and> prev then digits_value False acc cs
      else Inl ValueError)"

text \<open>
  \<^verbatim>\<open>int(s)\<close> for a string in base 10: surrounding whitespace is dropped, one sign is
  allowed, and anything else raises \<^verbatim>\<open>ValueError\<close>. Strings here are lists of 8-bit
  characters, so digits and spaces outside ASCII are not digits or spaces.
\<close>

definition py_int :: "string \<Rightarrow> exc + int" where
  "py_int s =
     (case strip s of
        [] \<Rightarrow> Inl ValueError
      | c # cs \<Rightarrow>
          if c = CHR ''-'' then
            (case digits_value False 0 cs of Inl e \<Rightarrow> Inl e | Inr v \<Rightarrow> Inr (- v))
          else if c = CHR ''+'' then digits_value False 0 cs
          else digits_value False 0 (c # cs))"

subsection \<open>The data of the remote API\<close>

text \<open>
  The JSON objects the client returns. A field of type \<open>option\<close> is \<open>None\<close> when the key
  is absent (or holds \<^verbatim>\<open>None\<close>).
\<close>

record raw_track =
  track_uri :: "string option"
  track_name :: "string option"
  track_artists :: "string list option"

record raw_item =
  item_track :: "raw_track option"

record page =
  page_items :: "raw_item list"
  page_next :: "string option"

record playlist_data =
  pd_name :: "string option"
  pd_owner :: "string option"
  pd_total :: "nat option"

record created_playlist =
  cp_id :: string
  cp_url :: string

text \<open>What a call of the client can return: \<^verbatim>\<open>None\<close> or the endpoint's object.\<close>

datatype answer =
    ANone
  | ABools "bool list"
  | APage page
  | APlaylist playlist_data
  | ACreated created_playlist
  | AUser string

text \<open>
  A call of the client: the bound method with its arguments, as passed to
  \<^verbatim>\<open>rate_limited_request(func, *args, **kwargs)\<close>.
\<close>

datatype call =
    Playlist string
  | PlaylistItems string
  | NextPage page
  | SavedTracks int
  | SavedContains "string list"
  | SavedAdd "string list"
  | SavedDelete "string list"
  | CurrentUser
  | PlaylistCreate string string
  | PlaylistAddItems string "string list"

text \<open>
  One execution of a call returns, raises \<^verbatim>\<open>SpotifyException\<close> (with its
  \<^verbatim>\<open>http_status\<close> and \<^verbatim>\<open>headers\<close>), or raises another exception.
\<close>

datatype outcome =
    Ok answer
  | SpotifyException int "(string \<times> string) list option"
  | OtherException exc

text \<open>
  The client \<^verbatim>\<open>sp\<close>: the remote service is a state \<open>'w\<close> that every call may read
  and change.
\<close>

type_synonym 'w client = "call \<Rightarrow> 'w \<Rightarrow> outcome \<times> 'w"

subsection \<open>What the program does besides computing: the trace\<close>

record track =
  uri :: string
  name :: string
  artist :: string

datatype msg =
    RateLimitHit int
  | ApiError int
  | MaxRetriesReached
  | FailedToLoadPlaylist exc
  | NoTracksToProcess
  | SafetyProtection nat
  | SpeedMenu
  | ReturningToDashboard
  | Summary string nat real
  | Cancelled
  | Starting string
  | SkippedAlreadyLiked track
  | Added track
  | Removed track
  | SkippedNotLiked track
  | ErrorOn track exc
  | Completed nat nat
  | FetchingLiked
  | FoundLiked nat
  | AddingTracks
  | Success string
  | Link string
  | ErrorCreatingPlaylist exc
  | LoadingPlaylist
  | NoTracksLoaded
  | FoundTracks nat
  | Preview "track list"

text \<open>
  \<open>Called c k r\<close>: the call \<open>c\<close> was executed with \<open>k\<close> earlier failures of the same
  request, and ended as \<open>r\<close>. \<open>Sleep d j\<close>: \<^verbatim>\<open>time.sleep(d + random.uniform(0, j))\<close>.
  \<open>Advance n\<close>: the progress bar moved by \<open>n\<close>. A sleep is taken to return, and the
  random part of its length is not computed. An interrupt of the process
  (\<^verbatim>\<open>KeyboardInterrupt\<close>, which no \<^verbatim>\<open>except Exception\<close> catches) is outside the model.
\<close>

datatype event =
    Called call nat outcome
  | Print msg
  | Sleep real real
  | Advance nat

section \<open>The rate-limited wrapper\<close>

text \<open>\<^verbatim>\<open>int(e.headers.get('Retry-After', 5)) if e.headers else 5\<close>\<close>

definition retry_after :: "(string \<times> string) list option \<Rightarrow> exc + int" where
  "retry_after headers =
     (case headers of
        None \<Rightarrow> Inr 5
      | Some hs \<Rightarrow>
          if hs = [] then Inr 5
          else (case map_of hs ''Retry-After'' of None \<Rightarrow> Inr 5 | Some v \<Rightarrow> py_int v))"

text \<open>
  The \<^verbatim>\<open>while retries < MAX_RETRIES\<close> loop of \<^verbatim>\<open>rate_limited_request\<close>, from a given value
  of \<^verbatim>\<open>retries\<close>. Only \<^verbatim>\<open>SpotifyException\<close> is caught; any other exception of the call,
  and the \<^verbatim>\<open>ValueError\<close> of a malformed \<^verbatim>\<open>Retry-After\<close>, leave the function.
\<close>

function rate_limited_loop ::
  "'w client \<Rightarrow> call \<Rightarrow> nat \<Rightarrow> 'w \<Rightarrow> (exc + answer) \<times> event list \<times> 'w" where
  "rate_limited_loop sp c retries w =
     (if retries < MAX_RETRIES then
        (case sp c w of
           (Ok result, w') \<Rightarrow>
             (Inr result, [Called c retries (Ok result), Sleep MIN_DELAY_BASE 0.15], w')
         | (SpotifyException status headers, w') \<Rightarrow>
             if status = 429 then
               (case retry_after headers of
                  Inl e \<Rightarrow> (Inl e, [Called c retries (SpotifyException status headers)], w')
                | Inr secs \<Rightarrow>
                    (case rate_limited_loop sp c (retries + 1) w' of
                       (r, es, w'') \<Rightarrow>
                         (r, [Called c retries (SpotifyException status headers),
                              Print (RateLimitHit secs), Sleep (real_of_int secs) 2] @ es, w'')))
             else
               (case rate_limited_loop sp c (retries + 1) w' of
                  (r, es, w'') \<Rightarrow>
                    (r, [Called c retries (SpotifyException status headers),
                         Print (ApiError status), Sleep (2 + real retries * 2) 0] @ es, w''))
         | (OtherException e, w') \<Rightarrow> (Inl e, [Called c retries (OtherException e)], w'))
      else (Inr ANone, [Print MaxRetriesReached], w))"
  by pat_completeness auto
termination
  by (relation "measure (\<lambda>(sp, c, retries, w). MAX_RETRIES - retries)") auto

definition rate_limited_request ::
  "'w client \<Rightarrow> call \<Rightarrow> 'w \<Rightarrow> (exc + answer) \<times> event list \<times> 'w" where
  "rate_limited_request sp c w = rate_limited_loop sp c 0 w"

section \<open>Reading the client's answers\<close>

text \<open>
  The program uses an answer as a list (\<^verbatim>\<open>x[0]\<close>), as a page (\<^verbatim>\<open>while results:\<close>,
  \<^verbatim>\<open>results["items"]\<close>) or as an object with known keys. \<^verbatim>\<open>None\<close> and the empty list are
  falsy; using an answer of another kind raises, as it does in Python.
\<close>

text \<open>\<^verbatim>\<open>x[0]\<close>\<close>

fun subscript0 :: "answer \<Rightarrow> exc + bool" where
  "subscript0 ANone = Inl TypeError"
| "subscript0 (ABools []) = Inl IndexError"
| "subscript0 (ABools (b # bs)) = Inr b"
| "subscript0 (APage p) = Inl KeyError"
| "subscript0 (APlaylist d) = Inl KeyError"
| "subscript0 (ACreated c) = Inl KeyError"
| "subscript0 (AUser u) = Inl KeyError"

text \<open>
  \<^verbatim>\<open>while results:\<close> followed by \<^verbatim>\<open>results["items"]\<close>: \<open>Inr None\<close> when the loop is
  left because \<^verbatim>\<open>results\<close> is falsy, \<open>Inr (Some p)\<close> when the body runs on the page \<open>p\<close>.
\<close>

fun page_of :: "answer \<Rightarrow> exc + page option" where
  "page_of ANone = Inr None"
| "page_of (ABools bs) = (if bs = [] then Inr None else Inl TypeError)"
| "page_of (APage p) = Inr (Some p)"
| "page_of (APlaylist d) = Inl KeyError"
| "page_of (ACreated c) = Inl KeyError"
| "page_of (AUser u) = Inl KeyError"

text \<open>\<^verbatim>\<open>results.get("next")\<close> as a condition: a cursor that is present and not empty.\<close>

definition has_next :: "page \<Rightarrow> bool" where
  "has_next results = (case page_next results of None \<Rightarrow> False | Some cursor \<Rightarrow> cursor \<noteq> [])"


section \<open>Fetching a playlist\<close>









section \<open>Processing the songs of a playlist\<close>

subsection \<open>The delay between two songs\<close>

text \<open>
  \<^verbatim>\<open>Prompt.ask(..., choices=[...], default=d)\<close> returns one of the choices, or \<open>d\<close> when
  the user only presses Enter (\<open>None\<close> here).
\<close>

definition ask :: "string \<Rightarrow> string option \<Rightarrow> string" where
  "ask dflt entered = (case entered of None \<Rightarrow> dflt | Some v \<Rightarrow> v)"

definition speed_names :: "(string \<times> string) list" where
  "speed_names = [(''1'', ''fast''), (''2'', ''balanced''), (''3'', ''accurate'')]"

text \<open>
  How \<^verbatim>\<open>process_songs\<close> sets \<^verbatim>\<open>effective_delay\<close>: \<open>Inr None\<close> is the return to the
  dashboard (choice 4), \<open>Inl KeyError\<close> a choice that is no key of the dict.
\<close>

definition effective_delay :: "nat \<Rightarrow> string option \<Rightarrow> exc + real option" where
  "effective_delay ntotal entered =
     (if ntotal > SAFE_THRESHOLD then Inr (Some SLOW_THRESHOLD_DELAY)
      else
        (let speed_choice = ask ''2'' entered in
         if speed_choice = ''4'' then Inr None
         else
           (case map_of speed_names speed_choice of
              None \<Rightarrow> Inl KeyError
            | Some mode_name \<Rightarrow>
                (case map_of SPEED_MODES mode_name of
                   None \<Rightarrow> Inl KeyError
                 | Some d \<Rightarrow> Inr (Some d)))))"

subsection \<open>One song\<close>

record run_stats =
  processed :: nat
  skipped :: nat

text \<open>
  The statements inside the \<^verbatim>\<open>try\<close> of the loop, up to the two counters. The result of
  the add and of the delete request is not looked at: whatever
  \<^verbatim>\<open>rate_limited_request\<close> returns, the song is reported and counted.
\<close>

definition try_song ::
  "'w client \<Rightarrow> string \<Rightarrow> track \<Rightarrow> run_stats \<Rightarrow> 'w \<Rightarrow> (exc + run_stats) \<times> event list \<times> 'w" where
  "try_song sp mode tr st w =
     (if mode = ''add'' then
        (case rate_limited_request sp (SavedContains [uri tr]) w of
           (Inl e, es, w') \<Rightarrow> (Inl e, es, w')
         | (Inr a, es, w') \<Rightarrow>
             (case subscript0 a of
                Inl e \<Rightarrow> (Inl e, es, w')
              | Inr is_liked \<Rightarrow>
                  if is_liked then
                    (Inr (st\<lparr>skipped := skipped st + 1\<rparr>),
                     es @ [Print (SkippedAlreadyLiked tr)], w')
                  else
                    (case rate_limited_request sp (SavedAdd [uri tr]) w' of
                       (Inl e, es2, w'') \<Rightarrow> (Inl e, es @ es2, w'')
                     | (Inr r, es2, w'') \<Rightarrow>
                         (Inr (st\<lparr>processed := processed st + 1\<rparr>),
                          es @ es2 @ [Print (Added tr)], w''))))
      else if mode = ''remove'' then
        (case rate_limited_request sp (SavedContains [uri tr]) w of
           (Inl e, es, w') \<Rightarrow> (Inl e, es, w')
         | (Inr a, es, w') \<Rightarrow>
             (case subscript0 a of
                Inl e \<Rightarrow> (Inl e, es, w')
              | Inr is_liked \<Rightarrow>
                  if is_liked then
                    (case rate_limited_request sp (SavedDelete [uri tr]) w' of
                       (Inl e, es2, w'') \<Rightarrow> (Inl e, es @ es2, w'')
                     | (Inr r, es2, w'') \<Rightarrow>
                         (Inr (st\<lparr>processed := processed st + 1\<rparr>),
                          es @ es2 @ [Print (Removed tr)], w''))
                  else
                    (Inr (st\<lparr>skipped := skipped st + 1\<rparr>),
                     es @ [Print (SkippedNotLiked tr)], w')))
      else (Inr st, [], w))"

text \<open>
  One iteration of the \<^verbatim>\<open>for\<close> loop: the \<^verbatim>\<open>try\<close> with the progress bar moved at its end,
  the \<^verbatim>\<open>except Exception\<close> with its message and pause, then the pause between songs. The
  text of the estimated time, computed from the clock, is not modelled.
\<close>

definition song_step ::
  "'w client \<Rightarrow> string \<Rightarrow> real \<Rightarrow> track \<Rightarrow> run_stats \<Rightarrow> 'w \<Rightarrow> run_stats \<times> event list \<times> 'w" where
  "song_step sp mode delay tr st w =
     (case try_song sp mode tr st w of
        (Inr st', es, w') \<Rightarrow> (st', es @ [Advance 1, Sleep delay 0.15], w')
      | (Inl e, es, w') \<Rightarrow> (st, es @ [Print (ErrorOn tr e), Sleep 3 2, Sleep delay 0.15], w'))"

subsection \<open>The loop and the whole operation\<close>

text \<open>The \<^verbatim>\<open>for\<close> loop over a list of songs, in the order of the list.\<close>

fun songs_loop ::
  "'w client \<Rightarrow> string \<Rightarrow> real \<Rightarrow> track list \<Rightarrow> run_stats \<Rightarrow> 'w \<Rightarrow> run_stats \<times> event list \<times> 'w" where
  "songs_loop sp mode delay [] st w = (st, [], w)"
| "songs_loop sp mode delay (tr # trs) st w =
     (case song_step sp mode delay tr st w of
        (st', es, w') \<Rightarrow>
          (case songs_loop sp mode delay trs st' w' of
             (st'', es', w'') \<Rightarrow> (st'', es @ es', w'')))"

text \<open>
  Lines 307 to 360: the counters start at zero, the loop runs over \<^verbatim>\<open>tracks[::-1]\<close>, and
  the two counters are printed.
\<close>

definition run_songs ::
  "'w client \<Rightarrow> track list \<Rightarrow> string \<Rightarrow> real \<Rightarrow> 'w \<Rightarrow> run_stats \<times> event list \<times> 'w" where
  "run_songs sp tracks mode delay w =
     (case songs_loop sp mode delay (rev tracks) \<lparr>processed = 0, skipped = 0\<rparr> w of
        (st, es, w') \<Rightarrow> (st, es @ [Print (Completed (processed st) (skipped st))], w'))"


section \<open>The add and remove branch of the dashboard\<close>


section \<open>Creating a playlist from the liked songs\<close>

subsection \<open>The limit\<close>

text \<open>
  \<^verbatim>\<open>int(limit_str) if limit_str.lower() != "all" else None\<close>, with \<^verbatim>\<open>None\<close> again when
  \<^verbatim>\<open>int\<close> raises \<^verbatim>\<open>ValueError\<close> (the only exception \<open>py_int\<close> raises).
\<close>

definition parse_limit :: "string \<Rightarrow> int option" where
  "parse_limit limit_str =
     (if lower limit_str \<noteq> ''all'' then
        (case py_int limit_str of Inl e \<Rightarrow> None | Inr n \<Rightarrow> Some n)
      else None)"

text \<open>\<^verbatim>\<open>limit or 50\<close>: \<^verbatim>\<open>None\<close> and \<open>0\<close> are falsy.\<close>

definition page_size :: "int option \<Rightarrow> int" where
  "page_size limit = (case limit of None \<Rightarrow> 50 | Some n \<Rightarrow> if n = 0 then 50 else n)"

text \<open>\<^verbatim>\<open>limit is None or len(liked) < limit\<close>\<close>

definition more_wanted :: "int option \<Rightarrow> string list \<Rightarrow> bool" where
  "more_wanted limit liked = (case limit of None \<Rightarrow> True | Some n \<Rightarrow> int (length liked) < n)"

text \<open>\<^verbatim>\<open>xs[:n]\<close>: a negative \<open>n\<close> counts from the end.\<close>

definition slice_to :: "int \<Rightarrow> 'a list \<Rightarrow> 'a list" where
  "slice_to n xs = (if 0 \<le> n then take (nat n) xs else take (length xs - nat (- n)) xs)"

text \<open>\<^verbatim>\<open>if limit and len(liked) > limit: liked = liked[:limit]\<close>\<close>

definition truncate_liked :: "int option \<Rightarrow> string list \<Rightarrow> string list" where
  "truncate_liked limit liked =
     (case limit of
        None \<Rightarrow> liked
      | Some n \<Rightarrow> if n \<noteq> 0 \<and> int (length liked) > n then slice_to n liked else liked)"

subsection \<open>Fetching the liked songs\<close>

definition item_uri :: "raw_item \<Rightarrow> string option" where
  "item_uri item =
     (case item_track item of
        None \<Rightarrow> None
      | Some t \<Rightarrow>
          (case track_uri t of None \<Rightarrow> None | Some u \<Rightarrow> if u = [] then None else Some u))"

definition page_uris :: "page \<Rightarrow> string list" where
  "page_uris results = List.map_filter item_uri (page_items results)"

text \<open>
  The \<^verbatim>\<open>while results:\<close> loop of \<^verbatim>\<open>create_playlist_from_liked\<close>, entered with a page;
  \<open>None\<close> is a run that never leaves the loop.
\<close>

partial_function (option) liked_pages ::
  "'w client \<Rightarrow> int option \<Rightarrow> page \<Rightarrow> string list \<Rightarrow> event list \<Rightarrow> 'w
     \<Rightarrow> ((exc + string list) \<times> event list \<times> 'w) option" where
  "liked_pages sp limit results liked es w =
     (let liked' = liked @ page_uris results in
      if has_next results \<and> more_wanted limit liked' then
        (case rate_limited_request sp (NextPage results) w of
           (Inl e, es', w') \<Rightarrow> Some (Inl e, es @ es', w')
         | (Inr a, es', w') \<Rightarrow>
             (case page_of a of
                Inl e \<Rightarrow> Some (Inl e, es @ es', w')
              | Inr None \<Rightarrow> Some (Inr liked', es @ es', w')
              | Inr (Some p) \<Rightarrow> liked_pages sp limit p liked' (es @ es') w'))
      else Some (Inr liked', es, w))"

declare liked_pages.simps [code]

text \<open>Lines 381 to 394: the first request, the loop, and the cut to the limit.\<close>

definition fetch_liked ::
  "'w client \<Rightarrow> int option \<Rightarrow> 'w \<Rightarrow> ((exc + string list) \<times> event list \<times> 'w) option" where
  "fetch_liked sp limit w =
     (case rate_limited_request sp (SavedTracks (page_size limit)) w of
        (Inl e, es, w') \<Rightarrow> Some (Inl e, es, w')
      | (Inr a, es, w') \<Rightarrow>
          (case page_of a of
             Inl e \<Rightarrow> Some (Inl e, es, w')
           | Inr None \<Rightarrow> Some (Inr (truncate_liked limit []), es, w')
           | Inr (Some p) \<Rightarrow>
               (case liked_pages sp limit p [] es w' of
                  None \<Rightarrow> None
                | Some (Inl e, es', w'') \<Rightarrow> Some (Inl e, es', w'')
                | Some (Inr liked, es', w'') \<Rightarrow> Some (Inr (truncate_liked limit liked), es', w''))))"

subsection \<open>Uploading in batches\<close>

text \<open>\<^verbatim>\<open>x["id"]\<close> on the created playlist or on the current user.\<close>

fun subscript_id :: "answer \<Rightarrow> exc + string" where
  "subscript_id ANone = Inl TypeError"
| "subscript_id (ABools bs) = Inl TypeError"
| "subscript_id (ACreated c) = Inr (cp_id c)"
| "subscript_id (AUser u) = Inr u"
| "subscript_id (APage p) = Inl KeyError"
| "subscript_id (APlaylist d) = Inl KeyError"

text \<open>\<^verbatim>\<open>playlist['external_urls']['spotify']\<close>\<close>

fun subscript_url :: "answer \<Rightarrow> exc + string" where
  "subscript_url ANone = Inl TypeError"
| "subscript_url (ABools bs) = Inl TypeError"
| "subscript_url (ACreated c) = Inr (cp_url c)"
| "subscript_url (AUser u) = Inl KeyError"
| "subscript_url (APage p) = Inl KeyError"
| "subscript_url (APlaylist d) = Inl KeyError"

text \<open>
  \<^verbatim>\<open>for i in range(0, len(liked), 100)\<close>, from a given \<open>i\<close>: the batch is
  \<^verbatim>\<open>liked[i:i+100]\<close>, and the result of the request is not looked at.
\<close>

function upload_batches ::
  "'w client \<Rightarrow> answer \<Rightarrow> string list \<Rightarrow> nat \<Rightarrow> 'w \<Rightarrow> (exc + unit) \<times> event list \<times> 'w" where
  "upload_batches sp playlist liked i w =
     (if i < length liked then
        (let batch = take 100 (drop i liked) in
         case subscript_id playlist of
           Inl e \<Rightarrow> (Inl e, [], w)
         | Inr playlist_id \<Rightarrow>
             (case rate_limited_request sp (PlaylistAddItems playlist_id batch) w of
                (Inl e, es, w') \<Rightarrow> (Inl e, es, w')
              | (Inr r, es, w') \<Rightarrow>
                  (case upload_batches sp playlist liked (i + 100) w' of
                     (r', es', w'') \<Rightarrow> (r', es @ [Advance (length batch)] @ es', w''))))
      else (Inr (), [], w))"
  by pat_completeness auto
termination
  by (relation "measure (\<lambda>(sp, playlist, liked, i, w). length liked - i)") auto

subsection \<open>The whole operation\<close>

text \<open>\<^verbatim>\<open>sp.current_user()["id"]\<close>, called without the wrapper.\<close>

definition current_user_id :: "'w client \<Rightarrow> 'w \<Rightarrow> (exc + string) \<times> event list \<times> 'w" where
  "current_user_id sp w =
     (case sp CurrentUser w of
        (Ok a, w') \<Rightarrow> (subscript_id a, [Called CurrentUser 0 (Ok a)], w')
      | (SpotifyException status headers, w') \<Rightarrow>
          (Inl (SpotifyError status), [Called CurrentUser 0 (SpotifyException status headers)], w')
      | (OtherException e, w') \<Rightarrow> (Inl e, [Called CurrentUser 0 (OtherException e)], w'))"

text \<open>
  The body of the \<^verbatim>\<open>try\<close> of \<^verbatim>\<open>create_playlist_from_liked\<close>, for a limit already
  parsed; \<open>confirmed\<close> is the answer to the confirmation.
\<close>

definition export_liked ::
  "'w client \<Rightarrow> string \<Rightarrow> int option \<Rightarrow> bool \<Rightarrow> 'w \<Rightarrow> ((exc + unit) \<times> event list \<times> 'w) option" where
  "export_liked sp playlist_name limit confirmed w =
     (case fetch_liked sp limit w of
        None \<Rightarrow> None
      | Some (Inl e, es1, w1) \<Rightarrow> Some (Inl e, es1, w1)
      | Some (Inr liked, es1, w1) \<Rightarrow>
          if \<not> confirmed then
            Some (Inr (), es1 @ [Print (FoundLiked (length liked)), Print Cancelled], w1)
          else
            (case current_user_id sp w1 of
               (Inl e, es2, w2) \<Rightarrow>
                 Some (Inl e, es1 @ [Print (FoundLiked (length liked))] @ es2, w2)
             | (Inr user_id, es2, w2) \<Rightarrow>
                 (case rate_limited_request sp (PlaylistCreate user_id playlist_name) w2 of
                    (Inl e, es3, w3) \<Rightarrow>
                      Some (Inl e, es1 @ [Print (FoundLiked (length liked))] @ es2 @ es3, w3)
                  | (Inr playlist, es3, w3) \<Rightarrow>
                      (case upload_batches sp playlist liked 0 w3 of
                         (Inl e, es4, w4) \<Rightarrow>
                           Some (Inl e,
                                 es1 @ [Print (FoundLiked (length liked))] @ es2 @ es3
                                   @ [Print AddingTracks] @ es4, w4)
                       | (Inr u, es4, w4) \<Rightarrow>
                           (case subscript_url playlist of
                              Inl e \<Rightarrow>
                                Some (Inl e,
                                      es1 @ [Print (FoundLiked (length liked))] @ es2 @ es3
                                        @ [Print AddingTracks] @ es4
                                        @ [Print (Success playlist_name)], w4)
                            | Inr url \<Rightarrow>
                                Some (Inr (),
                                      es1 @ [Print (FoundLiked (length liked))] @ es2 @ es3
                                        @ [Print AddingTracks] @ es4
                                        @ [Print (Success playlist_name), Print (Link url)],
                                      w4))))))"


section \<open>Reading a trace\<close>

text \<open>The calls executed, in order, each with its attempt number and its outcome.\<close>

fun calls :: "event list \<Rightarrow> (call \<times> nat \<times> outcome) list" where
  "calls [] = []"
| "calls (Called c k r # es) = (c, k, r) # calls es"
| "calls (e # es) = calls es"

text \<open>The requests started: the calls executed as a first attempt.\<close>

definition requests :: "event list \<Rightarrow> call list" where
  "requests es = map fst (filter (\<lambda>(c, k, r). k = 0) (calls es))"

text \<open>The songs reported on the console, one line per song, in order.\<close>

fun song_of :: "msg \<Rightarrow> track option" where
  "song_of (SkippedAlreadyLiked t) = Some t"
| "song_of (Added t) = Some t"
| "song_of (Removed t) = Some t"
| "song_of (SkippedNotLiked t) = Some t"
| "song_of (ErrorOn t e) = Some t"
| "song_of m = None"

fun reported :: "event list \<Rightarrow> track list" where
  "reported [] = []"
| "reported (Print m # es) = (case song_of m of None \<Rightarrow> reported es | Some t \<Rightarrow> t # reported es)"
| "reported (e # es) = reported es"

text \<open>The songs whose processing ended in the \<^verbatim>\<open>except\<close> branch: the error lines.\<close>

fun failed :: "event list \<Rightarrow> track list" where
  "failed [] = []"
| "failed (Print (ErrorOn t e) # es) = t # failed es"
| "failed (e # es) = failed es"

fun is_contains :: "call \<Rightarrow> bool" where
  "is_contains (SavedContains us) = True"
| "is_contains c = False"



text \<open>
  The mutations of a trace against the membership checks before them: \<open>known\<close> is what
  the latest executed check returned (the uris asked about and the first answer), and
  it is forgotten when a check fails. An add must follow a check of the same uris that
  said not liked, a delete one that said liked.
\<close>

fun guarded :: "(string list \<times> bool) option \<Rightarrow> event list \<Rightarrow> bool" where
  "guarded known [] = True"
| "guarded known (Called (SavedContains us) k r # es) =
     guarded (case r of Ok a \<Rightarrow> (case subscript0 a of Inr b \<Rightarrow> Some (us, b) | Inl e \<Rightarrow> None)
                      | SpotifyException status headers \<Rightarrow> None
                      | OtherException e \<Rightarrow> None) es"
| "guarded known (Called (SavedAdd us) k r # es) = (known = Some (us, False) \<and> guarded known es)"
| "guarded known (Called (SavedDelete us) k r # es) = (known = Some (us, True) \<and> guarded known es)"
| "guarded known (e # es) = guarded known es"

text \<open>What a membership check that returned \<open>r\<close> for the uris \<open>us\<close> lets the program know.\<close>

definition learned :: "string list \<Rightarrow> exc + answer \<Rightarrow> (string list \<times> bool) option" where
  "learned us r =
     (case r of Inl e \<Rightarrow> None
              | Inr a \<Rightarrow> (case subscript0 a of Inl e \<Rightarrow> None | Inr b \<Rightarrow> Some (us, b)))"

text \<open>The calls that fetch a page of liked songs, and among them the calls for a next page.\<close>

fun is_fetch :: "call \<Rightarrow> bool" where
  "is_fetch (SavedTracks n) = True"
| "is_fetch (NextPage p) = True"
| "is_fetch c = False"

fun is_next :: "call \<Rightarrow> bool" where
  "is_next (NextPage p) = True"
| "is_next c = False"

text \<open>The page a call brought back, if it is a fetch that returned a page.\<close>

fun fetched :: "call \<Rightarrow> outcome \<Rightarrow> page list" where
  "fetched c (Ok (APage p)) = (if is_fetch c then [p] else [])"
| "fetched c r = []"

text \<open>The pages received in a trace, in order, and the uris collected from them.\<close>

fun pages :: "event list \<Rightarrow> page list" where
  "pages [] = []"
| "pages (Called c k r # es) = fetched c r @ pages es"
| "pages (e # es) = pages es"

definition collected :: "event list \<Rightarrow> string list" where
  "collected es = concat (map page_uris (pages es))"

text \<open>
  No call for a next page is executed once \<open>n\<close> uris are collected: \<open>got\<close> is the number
  collected before the trace.
\<close>

fun fetch_within :: "int \<Rightarrow> nat \<Rightarrow> event list \<Rightarrow> bool" where
  "fetch_within n got [] = True"
| "fetch_within n got (Called c k r # es) =
     ((is_next c \<longrightarrow> int got < n)
      \<and> fetch_within n (got + length (concat (map page_uris (fetched c r)))) es)"
| "fetch_within n got (e # es) = fetch_within n got es"

text \<open>The batches of the requests that add items to a playlist.\<close>

fun batches :: "call list \<Rightarrow> string list list" where
  "batches [] = []"
| "batches (PlaylistAddItems playlist_id batch # cs) = batch # batches cs"
| "batches (c # cs) = batches cs"

text \<open>A trace without any call that fetches liked songs.\<close>

definition other_calls :: "event list \<Rightarrow> bool" where
  "other_calls es = (\<forall>(c, k, r) \<in> set (calls es). \<not> is_fetch c)"

section \<open>What each part of the program leaves in the trace\<close>

text \<open>What the loop body leaves in the trace and in the counters for one song.\<close>

definition song_ok ::
  "track \<Rightarrow> run_stats \<Rightarrow> (exc + run_stats) \<times> event list \<Rightarrow> bool" where
  "song_ok tr st res =
     (case res of (r, es) \<Rightarrow>
        (\<forall>known. guarded known es)
        \<and> filter is_contains (requests es) = [SavedContains [uri tr]]
        \<and> failed es = []
        \<and> (case r of Inl e \<Rightarrow> reported es = []
                    | Inr st' \<Rightarrow> reported es = [tr]
                        \<and> processed st' + skipped st' = processed st + skipped st + 1))"

text \<open>The loop over the pages of liked songs, read from its trace.\<close>

definition liked_pages_ok ::
  "int option \<Rightarrow> page \<Rightarrow> string list \<Rightarrow> event list
     \<Rightarrow> (exc + string list) \<times> event list \<Rightarrow> bool" where
  "liked_pages_ok limit p liked es res =
     (case res of (r, es') \<Rightarrow>
        (\<exists>new. es' = es @ new
           \<and> (\<forall>n. limit = Some n \<longrightarrow> fetch_within n (length (liked @ page_uris p)) new)
           \<and> (limit = None \<longrightarrow> requests new = map NextPage (filter has_next (p # pages new)))
           \<and> (\<forall>out. r = Inr out \<longrightarrow> out = liked @ page_uris p @ collected new)
           \<and> (\<forall>c \<in> set (requests new). is_next c)))"

text \<open>What the fetch of the liked songs leaves in its trace, and what it returns.\<close>

definition fetch_ok :: "int option \<Rightarrow> (exc + string list) \<times> event list \<Rightarrow> bool" where
  "fetch_ok limit res =
     (case res of (r, es) \<Rightarrow>
        (\<exists>rest. requests es = SavedTracks (page_size limit) # rest \<and> (\<forall>c \<in> set rest. is_next c))
        \<and> (\<forall>n. limit = Some n \<longrightarrow> fetch_within n 0 es)
        \<and> (limit = None \<longrightarrow> filter is_next (requests es) = map NextPage (filter has_next (pages es)))
        \<and> (\<forall>out. r = Inr out \<longrightarrow> out = truncate_liked limit (collected es)))"

text \<open>What the upload from index \<open>i\<close> leaves in its trace.\<close>

definition upload_ok :: "string list \<Rightarrow> nat \<Rightarrow> (exc + unit) \<times> event list \<Rightarrow> bool" where
  "upload_ok liked i res =
     (case res of (r, es) \<Rightarrow>
        other_calls es
        \<and> (\<forall>b \<in> set (batches (requests es)). 0 < length b \<and> length b \<le> 100)
        \<and> (\<forall>b \<in> set (butlast (batches (requests es))). length b = 100)
        \<and> (\<exists>m. concat (batches (requests es)) = take m (drop i liked))
        \<and> (r = Inr () \<longrightarrow> concat (batches (requests es)) = drop i liked)
        \<and> (batches (requests es) \<noteq> [] \<longrightarrow> i < length liked))"

text \<open>
  What a confirmed export leaves in its trace: the fetch stays within the limit, an
  unbounded fetch asks for the page after every page that has one, and the batches
  uploaded are full but for the last and make up the list cut to the limit.
\<close>

definition export_ok :: "int option \<Rightarrow> (exc + unit) \<times> event list \<Rightarrow> bool" where
  "export_ok limit res =
     (case res of (r, es) \<Rightarrow>
        (\<forall>n. limit = Some n \<longrightarrow> fetch_within n 0 es)
        \<and> (limit = None \<longrightarrow> filter is_next (requests es) = map NextPage (filter has_next (pages es)))
        \<and> filter is_fetch (requests es) = SavedTracks (page_size limit) # filter is_next (requests es)
        \<and> (\<forall>b \<in> set (batches (requests es)). 0 < length b \<and> length b \<le> 100)
        \<and> (\<forall>b \<in> set (butlast (batches (requests es))). length b = 100)
        \<and> (r = Inr () \<longrightarrow> concat (batches (requests es)) = truncate_liked limit (collected es)))"

section \<open>Services and songs for concrete runs\<close>


text \<open>
  A service on which no song is liked and every other call is answered with the status
  500, and one on which every song is liked and every other call is answered so.
\<close>

definition add_refused :: "unit client" where
  "add_refused c w =
     (case c of SavedContains us \<Rightarrow> (Ok (ABools (map (\<lambda>u. False) us)), w)
              | _ \<Rightarrow> (SpotifyException 500 None, w))"

definition delete_refused :: "unit client" where
  "delete_refused c w =
     (case c of SavedContains us \<Rightarrow> (Ok (ABools (map (\<lambda>u. True) us)), w)
              | _ \<Rightarrow> (SpotifyException 500 None, w))"

text \<open>
  A service that is the set of liked uris: checks answer from it, and adds and deletes
  change it.
\<close>

definition library :: "string list client" where
  "library c w =
     (case c of
        SavedContains us \<Rightarrow> (Ok (ABools (map (\<lambda>u. u \<in> set w) us)), w)
      | SavedAdd us \<Rightarrow> (Ok ANone, us @ w)
      | SavedDelete us \<Rightarrow> (Ok ANone, filter (\<lambda>u. u \<notin> set us) w)
      | _ \<Rightarrow> (SpotifyException 404 None, w))"

text \<open>Three songs.\<close>

definition song_a :: track where
  "song_a = \<lparr>uri = ''spotify:track:a'', name = ''A'', artist = ''X''\<rparr>"

definition song_b :: track where
  "song_b = \<lparr>uri = ''spotify:track:b'', name = ''B'', artist = ''Y''\<rparr>"

definition song_c :: track where
  "song_c = \<lparr>uri = ''spotify:track:c'', name = ''C'', artist = ''Z''\<rparr>"



text \<open>
  A service with six liked songs on three pages of two, which creates playlists and
  accepts items.
\<close>

definition saved_item :: "string \<Rightarrow> raw_item" where
  "saved_item u =
     \<lparr>item_track = Some \<lparr>track_uri = Some u, track_name = None, track_artists = None\<rparr>\<rparr>"

definition liked_page :: "nat \<Rightarrow> page" where
  "liked_page k =
     (if k = 1 then \<lparr>page_items = [saved_item ''a'', saved_item ''b''], page_next = Some ''2''\<rparr>
      else if k = 2 then \<lparr>page_items = [saved_item ''c'', saved_item ''d''], page_next = Some ''3''\<rparr>
      else \<lparr>page_items = [saved_item ''e'', saved_item ''f''], page_next = None\<rparr>)"

definition liked_service :: "unit client" where
  "liked_service c w =
     (case c of
        SavedTracks k \<Rightarrow> (Ok (APage (liked_page 1)), w)
      | NextPage p \<Rightarrow>
          (if page_next p = Some ''2'' then (Ok (APage (liked_page 2)), w)
           else if page_next p = Some ''3'' then (Ok (APage (liked_page 3)), w)
           else (Ok ANone, w))
      | CurrentUser \<Rightarrow> (Ok (AUser ''me''), w)
      | PlaylistCreate user_id playlist_name \<Rightarrow>
          (Ok (ACreated \<lparr>cp_id = ''new'', cp_url = ''https://open.spotify.com/playlist/new''\<rparr>), w)
      | PlaylistAddItems playlist_id batch \<Rightarrow> (Ok ANone, w)
      | _ \<Rightarrow> (SpotifyException 404 None, w))"



section \<open>Properties of the rate-limited wrapper\<close>

lemma calls_append [simp]: "calls (es @ es') = calls es @ calls es'"
  by (induction es rule: calls.induct) simp_all

lemma requests_append [simp]: "requests (es @ es') = requests es @ requests es'"
  by (simp add: requests_def)

lemma reported_append [simp]: "reported (es @ es') = reported es @ reported es'"
  by (induction es rule: reported.induct) (simp_all split: option.splits)

lemma failed_append [simp]: "failed (es @ es') = failed es @ failed es'"
  by (induction es rule: failed.induct) simp_all

declare rate_limited_loop.simps [simp del]

lemma rate_limited_loop_cases [case_names exhausted ok other bad_header rate_limited api_error]:
  assumes "\<And>retries w. \<not> retries < MAX_RETRIES \<Longrightarrow>
             P retries w (Inr ANone, [Print MaxRetriesReached], w)"
    and "\<And>retries w a w'. retries < MAX_RETRIES \<Longrightarrow> sp c w = (Ok a, w') \<Longrightarrow>
             P retries w (Inr a, [Called c retries (Ok a), Sleep MIN_DELAY_BASE 0.15], w')"
    and "\<And>retries w e w'. retries < MAX_RETRIES \<Longrightarrow> sp c w = (OtherException e, w') \<Longrightarrow>
             P retries w (Inl e, [Called c retries (OtherException e)], w')"
    and "\<And>retries w h e w'. retries < MAX_RETRIES \<Longrightarrow> sp c w = (SpotifyException 429 h, w') \<Longrightarrow>
             retry_after h = Inl e \<Longrightarrow>
             P retries w (Inl e, [Called c retries (SpotifyException 429 h)], w')"
    and "\<And>retries w h secs w' r es w''. retries < MAX_RETRIES \<Longrightarrow>
             sp c w = (SpotifyException 429 h, w') \<Longrightarrow> retry_after h = Inr secs \<Longrightarrow>
             rate_limited_loop sp c (Suc retries) w' = (r, es, w'') \<Longrightarrow>
             P (Suc retries) w' (r, es, w'') \<Longrightarrow>
             P retries w (r, [Called c retries (SpotifyException 429 h),
                              Print (RateLimitHit secs), Sleep (real_of_int secs) 2] @ es, w'')"
    and "\<And>retries w status h w' r es w''. retries < MAX_RETRIES \<Longrightarrow>
             sp c w = (SpotifyException status h, w') \<Longrightarrow> status \<noteq> 429 \<Longrightarrow>
             rate_limited_loop sp c (Suc retries) w' = (r, es, w'') \<Longrightarrow>
             P (Suc retries) w' (r, es, w'') \<Longrightarrow>
             P retries w (r, [Called c retries (SpotifyException status h),
                              Print (ApiError status), Sleep (2 + real retries * 2) 0] @ es, w'')"
  shows "P retries w (rate_limited_loop sp c retries w)"
proof (induction "MAX_RETRIES - retries" arbitrary: retries w)
  case 0
  then have "\<not> retries < MAX_RETRIES" by simp
  then show ?case
    using assms(1) [of retries w] by (simp add: rate_limited_loop.simps [of sp c retries w])
next
  case (Suc n)
  then have lt: "retries < MAX_RETRIES" and n: "n = MAX_RETRIES - Suc retries" by simp_all
  obtain out w' where step: "sp c w = (out, w')" by (cases "sp c w")
  obtain r es w'' where rec: "rate_limited_loop sp c (Suc retries) w' = (r, es, w'')"
    by (cases "rate_limited_loop sp c (Suc retries) w'")
  have ih: "P (Suc retries) w' (r, es, w'')"
    using Suc.hyps(1) [OF n, of w'] rec by simp
  show ?case
  proof (cases out)
    case (Ok a)
    then show ?thesis
      using assms(2) [OF lt, of w a w'] step lt
      by (simp add: rate_limited_loop.simps [of sp c retries w])
  next
    case (OtherException e)
    then show ?thesis
      using assms(3) [OF lt, of w e w'] step lt
      by (simp add: rate_limited_loop.simps [of sp c retries w])
  next
    case (SpotifyException status h)
    show ?thesis
    proof (cases "status = 429")
      case False
      then show ?thesis
        using assms(6) [OF lt _ False rec ih, of w h] step lt SpotifyException rec
        by (simp add: rate_limited_loop.simps [of sp c retries w])
    next
      case True
      show ?thesis
      proof (cases "retry_after h")
        case (Inl e)
        then show ?thesis
          using assms(4) [OF lt _ Inl, of w w'] step lt SpotifyException True
          by (simp add: rate_limited_loop.simps [of sp c retries w])
      next
        case (Inr secs)
        then show ?thesis
          using assms(5) [OF lt _ Inr rec ih, of w] step lt SpotifyException True rec
          by (simp add: rate_limited_loop.simps [of sp c retries w])
      qed
    qed
  qed
qed




lemma rate_limited_loop_reported:
  "case rate_limited_loop sp c retries w of (r, es, w') \<Rightarrow> reported es = [] \<and> failed es = []"
  by (rule rate_limited_loop_cases [where P = "\<lambda>retries w res. case res of (r, es, w') \<Rightarrow> 
      reported es = [] \<and> failed es = []"]) simp_all

lemma rate_limited_loop_requests:
  "case rate_limited_loop sp c retries w of (r, es, w') \<Rightarrow>
     requests es = (if retries = 0 \<and> 0 < MAX_RETRIES then [c] else [])"
  by (rule rate_limited_loop_cases [where P = "\<lambda>retries w res. case res of (r, es, w') \<Rightarrow>
     requests es = (if retries = 0 \<and> 0 < MAX_RETRIES then [c] else [])"])
    (auto simp: requests_def)

lemma rate_limited_request_reported:
  "rate_limited_request sp c w = (r, es, w') \<Longrightarrow> reported es = []"
  "rate_limited_request sp c w = (r, es, w') \<Longrightarrow> failed es = []"
  using rate_limited_loop_reported [where sp = sp and c = c and retries = 0 and w = w] by (simp_all add: rate_limited_request_def)

lemma rate_limited_request_requests:
  "rate_limited_request sp c w = (r, es, w') \<Longrightarrow> requests es = [c]"
  using rate_limited_loop_requests [where sp = sp and c = c and retries = 0 and w = w]
  by (simp add: rate_limited_request_def MAX_RETRIES_def)



section \<open>Properties of the processing of songs\<close>

text \<open>
  C1. The program at a song whose add request (or delete request) fails five times: the
  song is reported as added (removed) and counted as processed, and no error line is
  printed for it.
\<close>

theorem exhausted_mutation_is_counted:
  "(case run_songs add_refused [song_a] ''add'' 0.6 () of (st, es, w) \<Rightarrow>
      processed st = 1 \<and> skipped st = 0 \<and> failed es = []
      \<and> Print (Added song_a) \<in> set es \<and> Print MaxRetriesReached \<in> set es
      \<and> map (\<lambda>(c, k, r). (k, r)) (filter (\<lambda>(c, k, r). c = SavedAdd [uri song_a]) (calls es))
          = map (\<lambda>k. (k, SpotifyException 500 None)) [0, 1, 2, 3, 4])
   \<and> (case run_songs delete_refused [song_a] ''remove'' 0.6 () of (st, es, w) \<Rightarrow>
      processed st = 1 \<and> skipped st = 0 \<and> failed es = []
      \<and> Print (Removed song_a) \<in> set es \<and> Print MaxRetriesReached \<in> set es
      \<and> map (\<lambda>(c, k, r). (k, r)) (filter (\<lambda>(c, k, r). c = SavedDelete [uri song_a]) (calls es))
          = map (\<lambda>k. (k, SpotifyException 500 None)) [0, 1, 2, 3, 4])"
  by (simp add: run_songs_def song_step_def try_song_def add_refused_def delete_refused_def
      song_a_def rate_limited_request_def rate_limited_loop.simps MAX_RETRIES_def retry_after_def)

lemma requests_simps [simp]:
  "requests [] = []"
  "requests (Called c k r # es) = (if k = 0 then c # requests es else requests es)"
  "requests (Print m # es) = requests es"
  "requests (Sleep d j # es) = requests es"
  "requests (Advance n # es) = requests es"
  by (simp_all add: requests_def)

lemma guarded_append:
  "guarded known es \<Longrightarrow> (\<And>known'. guarded known' es') \<Longrightarrow> guarded known (es @ es')"
  by (induction known es rule: guarded.induct) simp_all

lemma rate_limited_loop_contains_guarded:
  "case rate_limited_loop sp (SavedContains us) retries w of (r, es, w') \<Rightarrow>
     (calls es = [] \<longrightarrow> r = Inr ANone)
     \<and> (\<forall>known es'. guarded known (es @ es')
            = guarded (if calls es = [] then known else learned us r) es')"
  by (rule rate_limited_loop_cases [where P = "\<lambda>retries w res. case res of (r, es, w') \<Rightarrow>
     (calls es = [] \<longrightarrow> r = Inr ANone)
     \<and> (\<forall>known es'. guarded known (es @ es')
            = guarded (if calls es = [] then known else learned us r) es')"])
    (auto simp: learned_def split: sum.splits)

lemma rate_limited_request_contains_guarded:
  assumes "rate_limited_request sp (SavedContains us) w = (r, es, w')"
  shows "guarded known (es @ es') = guarded (learned us r) es'"
proof -
  have "calls es \<noteq> []"
    using rate_limited_request_requests [OF assms] by (auto simp: requests_def)
  then show ?thesis
    using rate_limited_loop_contains_guarded [where sp = sp and us = us and retries = 0 and w = w]
      assms by (simp add: rate_limited_request_def)
qed

lemma rate_limited_loop_add_guarded:
  "case rate_limited_loop sp (SavedAdd us) retries w of (r, es, w') \<Rightarrow>
     (\<forall>es'. guarded (Some (us, False)) (es @ es') = guarded (Some (us, False)) es')"
  by (rule rate_limited_loop_cases [where P = "\<lambda>retries w res. case res of (r, es, w') \<Rightarrow>
     (\<forall>es'. guarded (Some (us, False)) (es @ es') = guarded (Some (us, False)) es')"])
    auto

lemma rate_limited_loop_delete_guarded:
  "case rate_limited_loop sp (SavedDelete us) retries w of (r, es, w') \<Rightarrow>
     (\<forall>es'. guarded (Some (us, True)) (es @ es') = guarded (Some (us, True)) es')"
  by (rule rate_limited_loop_cases [where P = "\<lambda>retries w res. case res of (r, es, w') \<Rightarrow>
     (\<forall>es'. guarded (Some (us, True)) (es @ es') = guarded (Some (us, True)) es')"])
    auto

lemma rate_limited_request_add_guarded:
  "rate_limited_request sp (SavedAdd us) w = (r, es, w') \<Longrightarrow>
     guarded (Some (us, False)) (es @ es') = guarded (Some (us, False)) es'"
  using rate_limited_loop_add_guarded [where sp = sp and us = us and retries = 0 and w = w]
  by (simp add: rate_limited_request_def)

lemma rate_limited_request_delete_guarded:
  "rate_limited_request sp (SavedDelete us) w = (r, es, w') \<Longrightarrow>
     guarded (Some (us, True)) (es @ es') = guarded (Some (us, True)) es'"
  using rate_limited_loop_delete_guarded [where sp = sp and us = us and retries = 0 and w = w]
  by (simp add: rate_limited_request_def)

lemma try_song_add:
  assumes "try_song sp ''add'' tr st w = (r, es, w')"
  shows "song_ok tr st (r, es)"
proof -
  obtain r1 es1 w1 where c: "rate_limited_request sp (SavedContains [uri tr]) w = (r1, es1, w1)"
    by (cases "rate_limited_request sp (SavedContains [uri tr]) w")
  obtain r2 es2 w2 where a: "rate_limited_request sp (SavedAdd [uri tr]) w1 = (r2, es2, w2)"
    by (cases "rate_limited_request sp (SavedAdd [uri tr]) w1")
  note f1 = rate_limited_request_reported [OF c] rate_limited_request_requests [OF c]
  note f2 = rate_limited_request_reported [OF a] rate_limited_request_requests [OF a]
  have g1: "guarded known (es1 @ es') = guarded (learned [uri tr] r1) es'" for known es'
    by (rule rate_limited_request_contains_guarded [OF c])
  have g2: "guarded (Some ([uri tr], False)) (es2 @ es') = guarded (Some ([uri tr], False)) es'"
    for es'
    by (rule rate_limited_request_add_guarded [OF a])
  show ?thesis
  proof (cases r1)
    case (Inl e)
    then have "r = Inl e" "es = es1"
      using assms c by (simp_all add: try_song_def)
    then show ?thesis
      using f1 g1 [of _ "[]"] by (simp add: song_ok_def)
  next
    case (Inr ans)
    show ?thesis
    proof (cases "subscript0 ans")
      case (Inl e)
      then have "r = Inl e" "es = es1"
        using assms c Inr by (simp_all add: try_song_def)
      then show ?thesis
        using f1 g1 [of _ "[]"] by (simp add: song_ok_def)
    next
      case b: (Inr is_liked)
      show ?thesis
      proof (cases is_liked)
        case True
        then have "r = Inr (st\<lparr>skipped := skipped st + 1\<rparr>)"
          "es = es1 @ [Print (SkippedAlreadyLiked tr)]"
          using assms c Inr b by (simp_all add: try_song_def)
        then show ?thesis
          using f1 g1 [of _ "[Print (SkippedAlreadyLiked tr)]"] by (simp add: song_ok_def)
      next
        case False
        have known: "learned [uri tr] r1 = Some ([uri tr], False)"
          using Inr b False by (simp add: learned_def)
        show ?thesis
        proof (cases r2)
          case (Inl e)
          then have "r = Inl e" "es = es1 @ es2"
            using assms c a Inr b False by (simp_all add: try_song_def)
          then show ?thesis
            using f1 f2 g1 [of _ "es2"] g2 [of "[]"] known by (simp add: song_ok_def)
        next
          case r2: (Inr x)
          then have "r = Inr (st\<lparr>processed := processed st + 1\<rparr>)"
            "es = es1 @ es2 @ [Print (Added tr)]"
            using assms c a Inr b False by (simp_all add: try_song_def)
          then show ?thesis
            using f1 f2 g1 [of _ "es2 @ [Print (Added tr)]"] g2 [of "[Print (Added tr)]"] known
            by (simp add: song_ok_def)
        qed
      qed
    qed
  qed
qed


lemma try_song_remove:
  assumes "try_song sp ''remove'' tr st w = (r, es, w')"
  shows "song_ok tr st (r, es)"
proof -
  obtain r1 es1 w1 where c: "rate_limited_request sp (SavedContains [uri tr]) w = (r1, es1, w1)"
    by (cases "rate_limited_request sp (SavedContains [uri tr]) w")
  obtain r2 es2 w2 where a: "rate_limited_request sp (SavedDelete [uri tr]) w1 = (r2, es2, w2)"
    by (cases "rate_limited_request sp (SavedDelete [uri tr]) w1")
  note f1 = rate_limited_request_reported [OF c] rate_limited_request_requests [OF c]
  note f2 = rate_limited_request_reported [OF a] rate_limited_request_requests [OF a]
  have g1: "guarded known (es1 @ es') = guarded (learned [uri tr] r1) es'" for known es'
    by (rule rate_limited_request_contains_guarded [OF c])
  have g2: "guarded (Some ([uri tr], True)) (es2 @ es') = guarded (Some ([uri tr], True)) es'"
    for es'
    by (rule rate_limited_request_delete_guarded [OF a])
  show ?thesis
  proof (cases r1)
    case (Inl e)
    then have "r = Inl e" "es = es1"
      using assms c by (simp_all add: try_song_def)
    then show ?thesis
      using f1 g1 [of _ "[]"] by (simp add: song_ok_def)
  next
    case (Inr ans)
    show ?thesis
    proof (cases "subscript0 ans")
      case (Inl e)
      then have "r = Inl e" "es = es1"
        using assms c Inr by (simp_all add: try_song_def)
      then show ?thesis
        using f1 g1 [of _ "[]"] by (simp add: song_ok_def)
    next
      case b: (Inr is_liked)
      show ?thesis
      proof (cases is_liked)
        case False
        then have "r = Inr (st\<lparr>skipped := skipped st + 1\<rparr>)"
          "es = es1 @ [Print (SkippedNotLiked tr)]"
          using assms c Inr b by (simp_all add: try_song_def)
        then show ?thesis
          using f1 g1 [of _ "[Print (SkippedNotLiked tr)]"] by (simp add: song_ok_def)
      next
        case True
        have known: "learned [uri tr] r1 = Some ([uri tr], True)"
          using Inr b True by (simp add: learned_def)
        show ?thesis
        proof (cases r2)
          case (Inl e)
          then have "r = Inl e" "es = es1 @ es2"
            using assms c a Inr b True by (simp_all add: try_song_def)
          then show ?thesis
            using f1 f2 g1 [of _ "es2"] g2 [of "[]"] known by (simp add: song_ok_def)
        next
          case r2: (Inr x)
          then have "r = Inr (st\<lparr>processed := processed st + 1\<rparr>)"
            "es = es1 @ es2 @ [Print (Removed tr)]"
            using assms c a Inr b True by (simp_all add: try_song_def)
          then show ?thesis
            using f1 f2 g1 [of _ "es2 @ [Print (Removed tr)]"] g2 [of "[Print (Removed tr)]"] known
            by (simp add: song_ok_def)
        qed
      qed
    qed
  qed
qed

lemma try_song_guarded:
  assumes "try_song sp mode tr st w = (r, es, w')"
  shows "guarded known es"
proof -
  consider "mode = ''add''" | "mode = ''remove''" | "mode \<noteq> ''add''" "mode \<noteq> ''remove''"
    by blast
  then show ?thesis
  proof cases
    case 1
    then show ?thesis using try_song_add [of sp tr st w r es w'] assms by (simp add: song_ok_def)
  next
    case 2
    then show ?thesis using try_song_remove [of sp tr st w r es w'] assms by (simp add: song_ok_def)
  next
    case 3
    then show ?thesis using assms by (auto simp: try_song_def)
  qed
qed

lemma song_step_guarded:
  assumes "song_step sp mode delay tr st w = (st', es, w')"
  shows "guarded known es"
proof -
  obtain r es0 w0 where t: "try_song sp mode tr st w = (r, es0, w0)"
    by (cases "try_song sp mode tr st w")
  have "guarded known es0" by (rule try_song_guarded [OF t])
  then have "guarded known (es0 @ es1)" if "\<And>k. guarded k es1" for es1
    using that by (rule guarded_append)
  then show ?thesis
    using assms t by (cases r) (auto simp: song_step_def)
qed

lemma song_step_accounts:
  assumes "mode = ''add'' \<or> mode = ''remove''"
    and "song_step sp mode delay tr st w = (st', es, w')"
  shows "reported es = [tr]"
    and "filter is_contains (requests es) = [SavedContains [uri tr]]"
    and "processed st' + skipped st' + length (failed es) = processed st + skipped st + 1"
proof -
  obtain r es0 w0 where t: "try_song sp mode tr st w = (r, es0, w0)"
    by (cases "try_song sp mode tr st w")
  have ok: "song_ok tr st (r, es0)"
    using assms(1) t try_song_add [of sp tr st w r es0 w0] try_song_remove [of sp tr st w r es0 w0]
    by blast
  show "reported es = [tr]"
    using assms(2) t ok by (cases r) (auto simp: song_step_def song_ok_def)
  show "filter is_contains (requests es) = [SavedContains [uri tr]]"
    using assms(2) t ok by (cases r) (auto simp: song_step_def song_ok_def)
  show "processed st' + skipped st' + length (failed es) = processed st + skipped st + 1"
    using assms(2) t ok by (cases r) (auto simp: song_step_def song_ok_def)
qed

lemma songs_loop_guarded:
  "songs_loop sp mode delay trs st w = (st', es, w') \<Longrightarrow> guarded known es"
proof (induction trs arbitrary: st w st' es w' known)
  case Nil
  then show ?case by simp
next
  case (Cons tr trs)
  obtain st1 es1 w1 where s: "song_step sp mode delay tr st w = (st1, es1, w1)"
    by (cases "song_step sp mode delay tr st w")
  obtain st2 es2 w2 where l: "songs_loop sp mode delay trs st1 w1 = (st2, es2, w2)"
    by (cases "songs_loop sp mode delay trs st1 w1")
  have "es = es1 @ es2"
    using Cons.prems s l by simp
  moreover have "guarded known es1" by (rule song_step_guarded [OF s])
  moreover have "guarded k es2" for k by (rule Cons.IH [OF l])
  ultimately show ?case by (simp add: guarded_append)
qed

lemma songs_loop_accounts:
  assumes "mode = ''add'' \<or> mode = ''remove''"
  shows "songs_loop sp mode delay trs st w = (st', es, w') \<Longrightarrow>
     reported es = trs
     \<and> filter is_contains (requests es) = map (\<lambda>t. SavedContains [uri t]) trs
     \<and> processed st' + skipped st' + length (failed es) = processed st + skipped st + length trs"
proof (induction trs arbitrary: st w st' es w')
  case Nil
  then show ?case by simp
next
  case (Cons tr trs)
  obtain st1 es1 w1 where s: "song_step sp mode delay tr st w = (st1, es1, w1)"
    by (cases "song_step sp mode delay tr st w")
  obtain st2 es2 w2 where l: "songs_loop sp mode delay trs st1 w1 = (st2, es2, w2)"
    by (cases "songs_loop sp mode delay trs st1 w1")
  have eq: "es = es1 @ es2" "st' = st2"
    using Cons.prems s l by simp_all
  note step = song_step_accounts [OF assms s]
  note rest = Cons.IH [OF l]
  show ?case
    using eq step rest by simp
qed

text \<open>The equations that evaluate a run on a concrete service.\<close>

lemmas run_eval = run_songs_def song_step_def try_song_def rate_limited_request_def
  rate_limited_loop.simps MAX_RETRIES_def retry_after_def

text \<open>
  C2. In mode add or remove, when the loop over \<open>N\<close> songs is over, the songs counted as
  processed, the songs counted as skipped and the songs with an error line are \<open>N\<close>
  together.
\<close>

theorem every_song_accounted:
  assumes "mode = ''add'' \<or> mode = ''remove''"
  shows "(case run_songs sp tracks mode delay w of (st, es, w') \<Rightarrow>
            processed st + skipped st + length (failed es) = length tracks)"
proof -
  obtain st es w' where l:
    "songs_loop sp mode delay (rev tracks) \<lparr>processed = 0, skipped = 0\<rparr> w = (st, es, w')"
    by (cases "songs_loop sp mode delay (rev tracks) \<lparr>processed = 0, skipped = 0\<rparr> w")
  show ?thesis
    using songs_loop_accounts [OF assms l] l by (simp add: run_songs_def)
qed

theorem every_song_accounted_witness:
  "(''add'' = ''add'' \<or> ''add'' = ''remove'')
   \<and> (case run_songs library [song_a, song_b, song_c] ''add'' 0.6 [''spotify:track:b''] of
        (st, es, w') \<Rightarrow> processed st = 2 \<and> skipped st = 1 \<and> failed es = []
           \<and> processed st + skipped st + length (failed es) = length [song_a, song_b, song_c])"
  using every_song_accounted [where mode = "''add''" and sp = library
      and tracks = "[song_a, song_b, song_c]" and delay = "0.6" and w = "[''spotify:track:b'']"]
  by (simp add: run_eval library_def song_a_def song_b_def song_c_def)



text \<open>
  C5. In every run, each execution of the add call comes after a membership check of the
  same uri whose answer was not liked, and each execution of the delete call after one
  whose answer was liked, with no other check in between: a song the check reported as
  liked is never added, and a song it reported as not liked is never deleted.
\<close>

theorem mutations_follow_checks:
  "guarded None (fst (snd (run_songs sp tracks mode delay w)))"
proof -
  obtain st es w' where l:
    "songs_loop sp mode delay (rev tracks) \<lparr>processed = 0, skipped = 0\<rparr> w = (st, es, w')"
    by (cases "songs_loop sp mode delay (rev tracks) \<lparr>processed = 0, skipped = 0\<rparr> w")
  have "guarded None es" by (rule songs_loop_guarded [OF l])
  then have "guarded None (es @ [Print (Completed (processed st) (skipped st))])"
    by (rule guarded_append) simp
  then show ?thesis
    using l by (simp add: run_songs_def)
qed

theorem mutations_follow_checks_witness:
  "guarded None (fst (snd (run_songs library [song_a, song_b, song_c] ''add'' 0.6
      [''spotify:track:b'']))) 
   \<and> requests (fst (snd (run_songs library [song_a, song_b, song_c] ''add'' 0.6
      [''spotify:track:b''])))
     = [SavedContains [''spotify:track:c''], SavedAdd [''spotify:track:c''],
        SavedContains [''spotify:track:b''],
        SavedContains [''spotify:track:a''], SavedAdd [''spotify:track:a'']]"
  using mutations_follow_checks [where mode = "''add''" and sp = library
      and tracks = "[song_a, song_b, song_c]" and delay = "0.6" and w = "[''spotify:track:b'']"]
  by (simp add: run_eval library_def song_a_def song_b_def song_c_def)

text \<open>
  C3. With more than 1000 songs the delay is 1.2 whatever the user would choose; with at
  most 1000 it is 0.35 for choice 1 (fast), 0.6 for choice 2 (balanced), 1.5 for choice 3
  (accurate), and 0.6 when the user only presses Enter.
\<close>

theorem effective_delay_table:
  "(1000 < n \<longrightarrow> effective_delay n entered = Inr (Some 1.2))
   \<and> (n \<le> 1000 \<longrightarrow>
        effective_delay n (Some ''1'') = Inr (Some 0.35)
        \<and> effective_delay n (Some ''2'') = Inr (Some 0.6)
        \<and> effective_delay n (Some ''3'') = Inr (Some 1.5)
        \<and> effective_delay n None = Inr (Some 0.6))"
  by (simp add: effective_delay_def SAFE_THRESHOLD_def SLOW_THRESHOLD_DELAY_def ask_def
      speed_names_def SPEED_MODES_def)

theorem effective_delay_table_witness:
  "(1000 < (1001::nat) \<and> effective_delay 1001 (Some ''1'') = Inr (Some 1.2))
   \<and> ((1000::nat) \<le> 1000 \<and> effective_delay 1000 (Some ''1'') = Inr (Some 0.35)
        \<and> effective_delay 1000 None = Inr (Some 0.6))"
  using effective_delay_table [where n = 1001 and entered = "Some ''1''"]
    effective_delay_table [where n = 1000]
  by simp

section \<open>Properties of the fetch of a playlist\<close>






section \<open>Properties of the export of liked songs\<close>

lemma pages_append [simp]: "pages (es @ es') = pages es @ pages es'"
  by (induction es rule: pages.induct) simp_all

lemma collected_append [simp]: "collected (es @ es') = collected es @ collected es'"
  by (simp add: collected_def)

lemma collected_simps [simp]:
  "collected [] = []"
  "collected (Print m # es) = collected es"
  "collected (Sleep d j # es) = collected es"
  "collected (Advance k # es) = collected es"
  by (simp_all add: collected_def)

lemma batches_append [simp]: "batches (cs @ cs') = batches cs @ batches cs'"
  by (induction cs rule: batches.induct) simp_all

lemma fetch_within_append:
  "fetch_within n got (es @ es')
     = (fetch_within n got es \<and> fetch_within n (got + length (collected es)) es')"
  by (induction n got es rule: fetch_within.induct) (simp_all add: collected_def add.assoc)

text \<open>What one request leaves in the trace, as far as pages are concerned.\<close>

lemma rate_limited_loop_pages:
  "case rate_limited_loop sp c retries w of (r, es, w') \<Rightarrow>
     pages es = (case r of Inr (APage p) \<Rightarrow> if is_fetch c then [p] else [] | _ \<Rightarrow> [])
     \<and> (\<forall>got. fetch_within n got es = (is_next c \<and> calls es \<noteq> [] \<longrightarrow> int got < n))
     \<and> (\<forall>(c', k, out) \<in> set (calls es). c' = c)"
  by (rule rate_limited_loop_cases [where P = "\<lambda>retries w res. case res of (r, es, w') \<Rightarrow>
     pages es = (case r of Inr (APage p) \<Rightarrow> if is_fetch c then [p] else [] | _ \<Rightarrow> [])
     \<and> (\<forall>got. fetch_within n got es = (is_next c \<and> calls es \<noteq> [] \<longrightarrow> int got < n))
     \<and> (\<forall>(c', k, out) \<in> set (calls es). c' = c)"])
    (auto split: answer.splits sum.splits)


lemma rate_limited_request_pages:
  assumes "rate_limited_request sp c w = (r, es, w')"
  shows "pages es = (case r of Inr (APage p) \<Rightarrow> if is_fetch c then [p] else [] | _ \<Rightarrow> [])"
    and "fetch_within n got es = (is_next c \<longrightarrow> int got < n)"
    and "requests es = [c]"
proof -
  have ne: "calls es \<noteq> []"
    using rate_limited_request_requests [OF assms] by (auto simp: requests_def)
  note l = rate_limited_loop_pages [where sp = sp and c = c and retries = 0 and w = w and n = n]
  show "pages es = (case r of Inr (APage p) \<Rightarrow> if is_fetch c then [p] else [] | _ \<Rightarrow> [])"
    using l assms by (simp add: rate_limited_request_def)
  show "fetch_within n got es = (is_next c \<longrightarrow> int got < n)"
    using l assms ne by (simp add: rate_limited_request_def)
  show "requests es = [c]"
    by (rule rate_limited_request_requests [OF assms])
qed

lemma page_of_cases:
  obtains (page) p where "a = APage p" "page_of a = Inr (Some p)"
  | (falsy) "page_of a = Inr None" "\<And>p. a \<noteq> APage p"
  | (raises) e where "page_of a = Inl e" "\<And>p. a \<noteq> APage p"
proof (cases a)
  case (ABools bs)
  then show ?thesis
    using falsy raises by (cases "bs = []") simp_all
qed (use page falsy raises in simp_all)

lemma liked_pages_trace:
  assumes "liked_pages sp limit p liked es w = Some y"
  shows "liked_pages_ok limit p liked es (fst y, fst (snd y))"
proof (rule liked_pages.raw_induct [where P = "\<lambda>sp limit p liked es w y.
    liked_pages_ok limit p liked es (fst y, fst (snd y))", OF _ assms], goal_cases)
  case (1 liked_pages' sp limit p liked es w y)
  let ?liked' = "liked @ page_uris p"
  show ?case
  proof (cases "has_next p \<and> more_wanted limit ?liked'")
    case False
    then have "y = (Inr ?liked', es, w)"
      using 1(2) by (auto simp: Let_def)
    then show ?thesis
      using False by (auto simp: liked_pages_ok_def more_wanted_def split: option.splits)
  next
    case True
    obtain r1 es1 w1 where q: "rate_limited_request sp (NextPage p) w = (r1, es1, w1)"
      by (cases "rate_limited_request sp (NextPage p) w")
    note f = rate_limited_request_pages [OF q]
    have within: "fetch_within n (length ?liked') es1" if "limit = Some n" for n
      using True that f(2) [of n "length ?liked'"] by (simp add: more_wanted_def)
    show ?thesis
    proof (cases r1)
      case (Inl e)
      then have "y = (Inl e, es @ es1, w1)"
        using 1(2) True q by (simp add: Let_def)
      then show ?thesis
        using True within f Inl by (simp add: liked_pages_ok_def collected_def)
    next
      case (Inr a)
      show ?thesis
      proof (cases a rule: page_of_cases)
        case (raises e)
        then have "y = (Inl e, es @ es1, w1)"
          using 1(2) True q Inr by (simp add: Let_def)
        moreover have "pages es1 = []"
          using f(1) Inr raises(2) by (cases a) auto
        ultimately show ?thesis
          using True within f by (simp add: liked_pages_ok_def collected_def)
      next
        case falsy
        then have "y = (Inr ?liked', es @ es1, w1)"
          using 1(2) True q Inr by (simp add: Let_def)
        moreover have "pages es1 = []"
          using f(1) Inr falsy(2) by (cases a) auto
        ultimately show ?thesis
          using True within f by (simp add: liked_pages_ok_def collected_def)
      next
        case (page p')
        then have rec: "liked_pages' sp limit p' ?liked' (es @ es1) w1 = Some y"
          using 1(2) True q Inr by (simp add: Let_def)
        have pg: "pages es1 = [p']"
          using f(1) Inr page by simp
        obtain new where new: "fst (snd y) = (es @ es1) @ new"
          and b: "\<And>n. limit = Some n \<Longrightarrow> fetch_within n (length (?liked' @ page_uris p')) new"
          and u: "limit = None \<Longrightarrow> requests new = map NextPage (filter has_next (p' # pages new))"
          and o: "\<And>out. fst y = Inr out \<Longrightarrow> out = ?liked' @ page_uris p' @ collected new"
          and nx: "\<forall>c \<in> set (requests new). is_next c"
          using 1(1) [OF rec] by (auto simp: liked_pages_ok_def)
        have "fetch_within n (length ?liked') (es1 @ new)" if "limit = Some n" for n
          using within [OF that] b [OF that] pg
          by (simp add: fetch_within_append collected_def add.assoc)
        moreover have "requests (es1 @ new) = map NextPage (filter has_next (p # pages (es1 @ new)))"
          if "limit = None"
          using u [OF that] f(3) pg True by simp
        moreover have "out = liked @ page_uris p @ collected (es1 @ new)" if "fst y = Inr out" for out
          using o [OF that] pg by (simp add: collected_def)
        moreover have "\<forall>c \<in> set (requests (es1 @ new)). is_next c"
          using nx f(3) by simp
        ultimately show ?thesis
          unfolding liked_pages_ok_def using new
          by (intro case_prodI exI [of _ "es1 @ new"]) (simp del: requests_append pages_append)
      qed
    qed
  qed
qed


lemma is_next_fetch: "is_next c \<Longrightarrow> is_fetch c"
  by (cases c) simp_all

lemma filter_is_next_map [simp]: "filter is_next (map NextPage ps) = map NextPage ps"
  by (induction ps) simp_all

lemma filter_is_next_all: "\<forall>c \<in> set cs. is_next c \<Longrightarrow> filter is_next cs = cs"
  by (induction cs) simp_all

lemma fetch_liked_trace:
  assumes "fetch_liked sp limit w = Some (r, es, w')"
  shows "fetch_ok limit (r, es)"
proof -
  obtain r1 es1 w1 where q:
    "rate_limited_request sp (SavedTracks (page_size limit)) w = (r1, es1, w1)"
    by (cases "rate_limited_request sp (SavedTracks (page_size limit)) w")
  note f = rate_limited_request_pages [OF q]
  have within: "fetch_within n 0 es1" for n
    using f(2) [of n 0] by simp
  show ?thesis
  proof (cases r1)
    case (Inl e)
    then have "r = Inl e" "es = es1"
      using assms q by (simp_all add: fetch_liked_def)
    then show ?thesis
      using within f Inl by (simp add: fetch_ok_def)
  next
    case (Inr a)
    show ?thesis
    proof (cases a rule: page_of_cases)
      case (raises e)
      then have "r = Inl e" "es = es1"
        using assms q Inr by (simp_all add: fetch_liked_def)
      moreover have "pages es1 = []"
        using f(1) Inr raises(2) by (cases a) auto
      ultimately show ?thesis
        using within f by (simp add: fetch_ok_def)
    next
      case falsy
      then have "r = Inr (truncate_liked limit [])" "es = es1"
        using assms q Inr by (simp_all add: fetch_liked_def)
      moreover have "pages es1 = []"
        using f(1) Inr falsy(2) by (cases a) auto
      ultimately show ?thesis
        using within f by (simp add: fetch_ok_def collected_def)
    next
      case (page p)
      have pg: "pages es1 = [p]"
        using f(1) Inr page by simp
      have "liked_pages sp limit p [] es1 w1 \<noteq> None"
        using assms q Inr page by (auto simp: fetch_liked_def split: option.splits)
      then obtain ry esy wy where y: "liked_pages sp limit p [] es1 w1 = Some (ry, esy, wy)"
        by (metis not_None_eq prod_cases3)
      have r: "r = (case ry of Inl e \<Rightarrow> Inl e | Inr liked \<Rightarrow> Inr (truncate_liked limit liked))"
        using assms q Inr page y by (cases ry) (auto simp: fetch_liked_def)
      have es: "es = esy"
        using assms q Inr page y by (cases ry) (auto simp: fetch_liked_def)
      obtain new where new: "es = es1 @ new"
        and b: "\<And>n. limit = Some n \<Longrightarrow> fetch_within n (length (page_uris p)) new"
        and u: "limit = None \<Longrightarrow> requests new = map NextPage (filter has_next (p # pages new))"
        and o: "\<And>out. ry = Inr out \<Longrightarrow> out = page_uris p @ collected new"
        and nx: "\<forall>c \<in> set (requests new). is_next c"
        using liked_pages_trace [OF y] es by (auto simp: liked_pages_ok_def)
      have "\<exists>rest. requests es = SavedTracks (page_size limit) # rest \<and> (\<forall>c \<in> set rest. is_next c)"
        using new f(3) nx by simp
      moreover have "fetch_within n 0 es" if "limit = Some n" for n
        using new within [of n] b [OF that] pg by (simp add: fetch_within_append collected_def)
      moreover have "filter is_next (requests es) = map NextPage (filter has_next (pages es))"
        if "limit = None"
        using new u [OF that] f(3) pg by simp
      moreover have "out = truncate_liked limit (collected es)" if "r = Inr out" for out
        using that r o new pg by (auto simp: collected_def split: sum.splits)
      ultimately show ?thesis
        by (simp add: fetch_ok_def)
    qed
  qed
qed

lemma other_calls_simps [simp]:
  "other_calls []"
  "other_calls (Called c k r # es) = (\<not> is_fetch c \<and> other_calls es)"
  "other_calls (Print m # es) = other_calls es"
  "other_calls (Sleep d j # es) = other_calls es"
  "other_calls (Advance n # es) = other_calls es"
  "other_calls (es @ es') = (other_calls es \<and> other_calls es')"
  by (auto simp: other_calls_def)

lemma fetched_other: "\<not> is_fetch c \<Longrightarrow> fetched c r = []"
  by (induction c r rule: fetched.induct) simp_all

lemma other_calls_quiet:
  "other_calls es \<Longrightarrow> pages es = [] \<and> fetch_within n got es \<and> filter is_next (requests es) = []"
  by (induction n got es rule: fetch_within.induct)
     (auto simp: is_next_fetch fetched_other)

lemma rate_limited_request_other:
  assumes "rate_limited_request sp c w = (r, es, w')" and "\<not> is_fetch c"
  shows "other_calls es"
  using rate_limited_loop_pages [where sp = sp and c = c and retries = 0 and w = w and n = 0] assms
  by (fastforce simp: rate_limited_request_def other_calls_def)

lemma current_user_id_trace:
  "current_user_id sp w = (r, es, w') \<Longrightarrow> other_calls es \<and> batches (requests es) = []"
  by (auto simp: current_user_id_def split: prod.splits outcome.splits)

declare upload_batches.simps [simp del]

lemma upload_batches_trace:
  "upload_batches sp playlist liked i w = (r, es, w') \<Longrightarrow> upload_ok liked i (r, es)"
proof (induction "length liked - i" arbitrary: i w r es w' rule: less_induct)
  case less
  show ?case
  proof (cases "i < length liked")
    case False
    then have "r = Inr ()" "es = []"
      using less.prems by (simp_all add: upload_batches.simps [of sp playlist liked i w])
    then show ?thesis
      using False by (simp add: upload_ok_def)
  next
    case True
    let ?batch = "take 100 (drop i liked)"
    have len: "0 < length ?batch" "length ?batch \<le> 100"
      using True by simp_all
    show ?thesis
    proof (cases "subscript_id playlist")
      case (Inl e)
      then have "r = Inl e" "es = []"
        using less.prems True by (simp_all add: upload_batches.simps [of sp playlist liked i w])
      then show ?thesis
        using True by (auto simp: upload_ok_def intro: exI [of _ 0])
    next
      case (Inr playlist_id)
      obtain r1 es1 w1 where q:
        "rate_limited_request sp (PlaylistAddItems playlist_id ?batch) w = (r1, es1, w1)"
        by (cases "rate_limited_request sp (PlaylistAddItems playlist_id ?batch) w")
      have req: "requests es1 = [PlaylistAddItems playlist_id ?batch]"
        by (rule rate_limited_request_requests [OF q])
      have oth: "other_calls es1"
        by (rule rate_limited_request_other [OF q]) simp
      show ?thesis
      proof (cases r1)
        case (Inl e)
        then have "r = Inl e" "es = es1"
          using less.prems True Inr q
          by (simp_all add: upload_batches.simps [of sp playlist liked i w])
        then show ?thesis
          using True req oth len by (auto simp: upload_ok_def intro: exI [of _ 100])
      next
        case r1: (Inr x)
        obtain r2 es2 w2 where rec: "upload_batches sp playlist liked (i + 100) w1 = (r2, es2, w2)"
          by (cases "upload_batches sp playlist liked (i + 100) w1")
        have eq: "r = r2" "es = es1 @ [Advance (length ?batch)] @ es2"
          using less.prems True Inr q r1 rec
          by (simp_all add: upload_batches.simps [of sp playlist liked i w])
        have "length liked - (i + 100) < length liked - i"
          using True by simp
        then have ih: "upload_ok liked (i + 100) (r2, es2)"
          using less.hyps rec by blast
        let ?bs = "batches (requests es2)"
        have bs: "batches (requests es) = ?batch # ?bs"
          using eq req by simp
        have full: "length ?batch = 100" if "?bs \<noteq> []"
          using ih that by (auto simp: upload_ok_def min_def)
        obtain m where m: "concat ?bs = take m (drop (i + 100) liked)"
          using ih by (auto simp: upload_ok_def)
        have dd: "drop (i + 100) liked = drop 100 (drop i liked)"
          by (simp add: add.commute)
        have "concat (batches (requests es)) = take (100 + m) (drop i liked)"
          using bs m dd by (simp add: take_add)
        moreover have "concat (batches (requests es)) = drop i liked" if "r = Inr ()"
        proof -
          have "?batch @ drop (i + 100) liked = drop i liked"
            using append_take_drop_id [of 100 "drop i liked"] by (simp add: add.commute)
          then show ?thesis
            using bs ih that eq(1) by (simp add: upload_ok_def)
        qed
        moreover have "\<forall>b \<in> set (batches (requests es)). 0 < length b \<and> length b \<le> 100"
          using bs ih len by (simp add: upload_ok_def)
        moreover have "\<forall>b \<in> set (butlast (batches (requests es))). length b = 100"
          using bs ih full by (simp add: upload_ok_def)
        moreover have "other_calls es"
          using eq oth ih by (simp add: upload_ok_def)
        ultimately show ?thesis
          using True by (auto simp: upload_ok_def)
      qed
    qed
  qed
qed


lemma batches_fetch: "\<forall>c \<in> set cs. is_fetch c \<Longrightarrow> batches cs = []"
  by (induction cs rule: batches.induct) simp_all

lemma filter_fetch_all: "\<forall>c \<in> set cs. is_next c \<Longrightarrow> filter is_fetch cs = cs"
  by (induction cs) (simp_all add: is_next_fetch)

lemma other_calls_requests: "other_calls es \<Longrightarrow> filter is_fetch (requests es) = []"
  by (induction es rule: calls.induct) simp_all

text \<open>The trace of a fetch followed by a trace without fetches.\<close>

lemma fetch_then_others:
  assumes f: "fetch_ok limit (rf, esf)" and o: "other_calls rest"
    and sizes: "\<forall>b \<in> set (batches (requests rest)). 0 < length b \<and> length b \<le> 100"
    and full: "\<forall>b \<in> set (butlast (batches (requests rest))). length b = 100"
    and all: "r = Inr () \<Longrightarrow> rf = Inr (concat (batches (requests rest)))"
  shows "export_ok limit (r, esf @ rest)"
proof -
  obtain cs where cs: "requests esf = SavedTracks (page_size limit) # cs" "\<forall>c \<in> set cs. is_next c"
    using f by (auto simp: fetch_ok_def)
  note q = other_calls_quiet [OF o]
  have b0: "batches (requests esf) = []"
    using cs by (simp add: batches_fetch is_next_fetch)
  have "fetch_within n 0 (esf @ rest)" if "limit = Some n" for n
    using f that q by (simp add: fetch_ok_def fetch_within_append)
  moreover have "filter is_next (requests (esf @ rest)) = map NextPage (filter has_next (pages (esf @ rest)))"
    if "limit = None"
    using f that q by (simp add: fetch_ok_def)
  moreover have "filter is_fetch (requests (esf @ rest))
      = SavedTracks (page_size limit) # filter is_next (requests (esf @ rest))"
    using cs q other_calls_requests [OF o] by (simp add: filter_fetch_all filter_is_next_all)
  moreover have "concat (batches (requests (esf @ rest))) = truncate_liked limit (collected (esf @ rest))"
    if "r = Inr ()"
    using f all [OF that] b0 q by (simp add: fetch_ok_def collected_def)
  ultimately show ?thesis
    using sizes full b0 by (simp add: export_ok_def)
qed

lemma export_liked_trace:
  assumes "export_liked sp playlist_name limit True w = Some (r, es, w')"
  shows "export_ok limit (r, es)"
proof -
  have "fetch_liked sp limit w \<noteq> None"
    using assms by (auto simp: export_liked_def split: option.splits)
  then obtain rf esf wf where f: "fetch_liked sp limit w = Some (rf, esf, wf)"
    by (metis not_None_eq prod_cases3)
  note fo = fetch_liked_trace [OF f]
  show ?thesis
  proof (cases rf)
    case (Inl e)
    then have "r = Inl e" "es = esf @ []"
      using assms f by (simp_all add: export_liked_def)
    then show ?thesis
      using fetch_then_others [OF fo, of "[]" r] by simp
  next
    case (Inr liked)
    let ?found = "Print (FoundLiked (length liked))"
    obtain ru esu wu where u: "current_user_id sp wf = (ru, esu, wu)"
      by (cases "current_user_id sp wf")
    note uo = current_user_id_trace [OF u]
    show ?thesis
    proof (cases ru)
      case (Inl e)
      then have "r = Inl e" "es = esf @ ?found # esu"
        using assms f Inr u by (simp_all add: export_liked_def)
      then show ?thesis
        using fetch_then_others [OF fo, of "?found # esu" r] uo by simp
    next
      case uid: (Inr user_id)
      obtain rc esc wc where c:
        "rate_limited_request sp (PlaylistCreate user_id playlist_name) wu = (rc, esc, wc)"
        by (cases "rate_limited_request sp (PlaylistCreate user_id playlist_name) wu")
      have co: "other_calls esc" "batches (requests esc) = []"
        using rate_limited_request_other [OF c] rate_limited_request_requests [OF c] by simp_all
      show ?thesis
      proof (cases rc)
        case (Inl e)
        then have "r = Inl e" "es = esf @ ?found # esu @ esc"
          using assms f Inr u uid c by (simp_all add: export_liked_def)
        then show ?thesis
          using fetch_then_others [OF fo, of "?found # esu @ esc" r] uo co by simp
      next
        case pl: (Inr playlist)
        obtain rb esb wb where b: "upload_batches sp playlist liked 0 wc = (rb, esb, wb)"
          by (cases "upload_batches sp playlist liked 0 wc")
        have bo: "upload_ok liked 0 (rb, esb)"
          by (rule upload_batches_trace [OF b])
        have r: "rb = Inr ()" if "r = Inr ()"
          using that assms f Inr u uid c pl b
          by (cases rb; cases "subscript_url playlist") (simp_all add: export_liked_def)
        have "\<exists>tail. es = esf @ ?found # esu @ esc @ Print AddingTracks # esb @ tail
                    \<and> other_calls tail \<and> requests tail = []"
        proof (cases rb)
          case (Inl e)
          then have "es = esf @ ?found # esu @ esc @ Print AddingTracks # esb @ []"
            using assms f Inr u uid c pl b by (auto simp: export_liked_def)
          then show ?thesis by (intro exI [of _ "[]"]) simp
        next
          case rb: (Inr x)
          show ?thesis
          proof (cases "subscript_url playlist")
            case (Inl e)
            then have "es = esf @ ?found # esu @ esc @ Print AddingTracks # esb
                @ [Print (Success playlist_name)]"
              using assms f Inr u uid c pl b rb by (auto simp: export_liked_def)
            then show ?thesis by (intro exI [of _ "[Print (Success playlist_name)]"]) simp
          next
            case url: (Inr url)
            then have "es = esf @ ?found # esu @ esc @ Print AddingTracks # esb
                @ [Print (Success playlist_name), Print (Link url)]"
              using assms f Inr u uid c pl b rb by (auto simp: export_liked_def)
            then show ?thesis
              by (intro exI [of _ "[Print (Success playlist_name), Print (Link url)]"]) simp
          qed
        qed
        then obtain tail where tail: "es = esf @ ?found # esu @ esc @ Print AddingTracks # esb @ tail"
          "other_calls tail" "requests tail = []"
          by blast
        show ?thesis
          unfolding tail(1)
          using fetch_then_others
            [OF fo, of "?found # esu @ esc @ Print AddingTracks # esb @ tail" r]
            uo co bo tail(2,3) r Inr
          by (simp add: upload_ok_def)
      qed
    qed
  qed
qed

text \<open>The equations that evaluate an export on a concrete service.\<close>

lemmas export_eval = export_liked_def fetch_liked_def liked_pages.simps upload_batches.simps
  current_user_id_def rate_limited_request_def rate_limited_loop.simps MAX_RETRIES_def
  retry_after_def page_size_def more_wanted_def truncate_liked_def slice_to_def has_next_def
  page_uris_def item_uri_def saved_item_def




lemma fetch_within_nothing:
  "fetch_within n got es \<Longrightarrow> n \<le> 0 \<Longrightarrow> filter is_next (requests es) = []"
  by (induction n got es rule: fetch_within.induct) auto








text \<open>
  C9. The limit \<open>0\<close> is parsed as the number 0. The fetch then makes one request, with page
  size 50, and returns every uri of the page it gets, without asking for a next page and
  without cutting; a confirmed export that goes through uploads exactly those uris. A
  page of at most 50 items gives at most 50 uris.
\<close>

theorem zero_limit_exports_first_page:
  "parse_limit ''0'' = Some 0
   \<and> (case rate_limited_request sp (SavedTracks 50) w of
        (r1, es1, w1) \<Rightarrow>
          fetch_liked sp (Some 0) w
            = Some (case r1 of
                      Inl e \<Rightarrow> Inl e
                    | Inr a \<Rightarrow>
                        (case page_of a of
                           Inl e \<Rightarrow> Inl e
                         | Inr None \<Rightarrow> Inr []
                         | Inr (Some p) \<Rightarrow> Inr (page_uris p)), es1, w1))
   \<and> (length (page_items p) \<le> 50 \<longrightarrow> length (page_uris p) \<le> 50)
   \<and> (case export_liked sp playlist_name (Some 0) True w of
         None \<Rightarrow> False
       | Some (r, es, w') \<Rightarrow>
           filter is_fetch (requests es) = [SavedTracks 50]
           \<and> (r = Inr () \<longrightarrow> concat (batches (requests es)) = collected es))"
proof (intro conjI)
  show "parse_limit ''0'' = Some 0"
    by (simp add: parse_limit_def lower_def lower_char_def py_int_def strip_def is_space_def
        is_digit_def digit_val_def)
  obtain r1 es1 w1 where q: "rate_limited_request sp (SavedTracks 50) w = (r1, es1, w1)"
    by (cases "rate_limited_request sp (SavedTracks 50) w")
  have loop: "liked_pages sp (Some 0) p' [] es1 w1 = Some (Inr (page_uris p'), es1, w1)" for p'
    by (subst liked_pages.simps) (simp add: more_wanted_def)
  have f: "fetch_liked sp (Some 0) w
            = Some (case r1 of
                      Inl e \<Rightarrow> Inl e
                    | Inr a \<Rightarrow>
                        (case page_of a of
                           Inl e \<Rightarrow> Inl e
                         | Inr None \<Rightarrow> Inr []
                         | Inr (Some p) \<Rightarrow> Inr (page_uris p)), es1, w1)"
    using q loop
    by (simp add: fetch_liked_def page_size_def truncate_liked_def
        split: sum.splits option.splits)
  then show "case rate_limited_request sp (SavedTracks 50) w of
        (r1, es1, w1) \<Rightarrow>
          fetch_liked sp (Some 0) w
            = Some (case r1 of
                      Inl e \<Rightarrow> Inl e
                    | Inr a \<Rightarrow>
                        (case page_of a of
                           Inl e \<Rightarrow> Inl e
                         | Inr None \<Rightarrow> Inr []
                         | Inr (Some p) \<Rightarrow> Inr (page_uris p)), es1, w1)"
    using q by simp
  show "length (page_items p) \<le> 50 \<longrightarrow> length (page_uris p) \<le> 50"
    by (simp add: page_uris_def List.map_filter_def)
      (meson le_trans length_filter_le)
  have "export_liked sp playlist_name (Some 0) True w \<noteq> None"
    unfolding export_liked_def f
    by (simp split: sum.splits prod.splits option.splits)
  then obtain r es w' where e: "export_liked sp playlist_name (Some 0) True w = Some (r, es, w')"
    by (metis not_None_eq prod_cases3)
  have ok: "export_ok (Some 0) (r, es)"
    by (rule export_liked_trace [OF e])
  have "fetch_within 0 0 es"
    using ok by (simp add: export_ok_def)
  then have "filter is_next (requests es) = []"
    by (rule fetch_within_nothing) simp
  then show "case export_liked sp playlist_name (Some 0) True w of
         None \<Rightarrow> False
       | Some (r, es, w') \<Rightarrow>
           filter is_fetch (requests es) = [SavedTracks 50]
           \<and> (r = Inr () \<longrightarrow> concat (batches (requests es)) = collected es)"
    using e ok by (simp add: export_ok_def page_size_def truncate_liked_def)
qed


theorem zero_limit_exports_first_page_witness:
  "parse_limit ''0'' = Some 0
   \<and> map_option fst (fetch_liked liked_service (Some 0) ()) = Some (Inr [''a'', ''b''])
   \<and> length (page_items (liked_page 1)) \<le> 50 \<and> length (page_uris (liked_page 1)) \<le> 50
   \<and> (case export_liked liked_service ''Backup'' (Some 0) True () of
         None \<Rightarrow> False
       | Some (r, es, w') \<Rightarrow>
           r = Inr () \<and> requests es
             = [SavedTracks 50, CurrentUser, PlaylistCreate ''me'' ''Backup'',
                PlaylistAddItems ''new'' [''a'', ''b'']])"
  using zero_limit_exports_first_page [where sp = liked_service and w = "()"
      and p = "liked_page 1" and playlist_name = "''Backup''"]
  by (simp add: export_eval liked_service_def liked_page_def)



end
